theory Spec2Isabelle
  imports Main
begin

section \<open>Regular expressions as the cloze code uses them\<close>

text \<open>
  \<^verbatim>\<open>expand_clozes\<close> works through Python's \<^verbatim>\<open>re\<close> module: \<^verbatim>\<open>re.findall\<close> and
  \<^verbatim>\<open>re.sub\<close> over three patterns. The patterns are modelled as data and matched by a
  backtracking matcher with Python's priorities: leftmost start, a lazy quantifier
  tries the short match first, a greedy one the long match first, an optional group
  is tried before it is skipped.

  Strings are \<^typ>\<open>string\<close>, characters are \<^typ>\<open>char\<close> (8 bits): digits are the ASCII
  digits and case folding is ASCII case folding.
\<close>

record flags =
  ignorecase :: bool  \<comment> \<open>\<^verbatim>\<open>(?i)\<close>\<close>
  dotall :: bool      \<comment> \<open>\<^verbatim>\<open>(?s)\<close>\<close>

datatype cls =
    Lit char   \<comment> \<open>a literal character\<close>
  | Dot        \<comment> \<open>\<^verbatim>\<open>.\<close>\<close>
  | Digit      \<comment> \<open>\<^verbatim>\<open>\d\<close>\<close>

datatype item =
    Atom cls                  \<comment> \<open>one character of the class\<close>
  | Star bool cls             \<comment> \<open>\<^verbatim>\<open>x*\<close>; the flag is True for the lazy \<^verbatim>\<open>x*?\<close>\<close>
  | Plus bool cls             \<comment> \<open>\<^verbatim>\<open>x+\<close>; the flag is True for the lazy \<^verbatim>\<open>x+?\<close>\<close>
  | Group string "item list"  \<comment> \<open>a capturing group, under its name or number\<close>
  | Opt "item list"           \<comment> \<open>\<^verbatim>\<open>(...)?\<close>, greedy\<close>
  | Close string string       \<comment> \<open>end of an open group: its name, the input where it opened\<close>

type_synonym pattern = "item list"
type_synonym groups = "(string \<times> string) list"

definition lower :: "char \<Rightarrow> char" where
  "lower x =
     (if 65 \<le> (of_char x :: nat) \<and> (of_char x :: nat) \<le> 90
      then char_of ((of_char x :: nat) + 32) else x)"

definition newline :: char where
  "newline = CHR 0x0A"

fun cmatch :: "flags \<Rightarrow> cls \<Rightarrow> char \<Rightarrow> bool" where
  "cmatch fl (Lit c) x = (if ignorecase fl then lower x = lower c else x = c)"
| "cmatch fl Dot x = (dotall fl \<or> x \<noteq> newline)"
| "cmatch fl Digit x = (48 \<le> (of_char x :: nat) \<and> (of_char x :: nat) \<le> 57)"

fun weight :: "item \<Rightarrow> nat" where
  "weight (Atom c) = 1"
| "weight (Star lz c) = 1"
| "weight (Plus lz c) = 3"
| "weight (Group g r) = 2 + sum_list (map weight r)"
| "weight (Opt r) = 1 + sum_list (map weight r)"
| "weight (Close g s0) = 1"

text \<open>
  \<open>m fl k s gs\<close> matches the items \<open>k\<close>, in sequence, at the start of \<open>s\<close>; \<open>gs\<close> are
  the groups captured so far. The result is the input left after the match and the
  groups, or None when every alternative has failed.
\<close>

function m :: "flags \<Rightarrow> pattern \<Rightarrow> string \<Rightarrow> groups \<Rightarrow> (string \<times> groups) option" where
  "m fl [] s gs = Some (s, gs)"
| "m fl (Atom c # k) s gs =
     (case s of
        [] \<Rightarrow> None
      | x # xs \<Rightarrow> if cmatch fl c x then m fl k xs gs else None)"
| "m fl (Star lz c # k) s gs =
     (if lz then
        (case m fl k s gs of
           Some r \<Rightarrow> Some r
         | None \<Rightarrow>
            (case s of
               [] \<Rightarrow> None
             | x # xs \<Rightarrow> if cmatch fl c x then m fl (Star lz c # k) xs gs else None))
      else
        (case s of
           [] \<Rightarrow> m fl k s gs
         | x # xs \<Rightarrow>
            if cmatch fl c x then
              (case m fl (Star lz c # k) xs gs of
                 Some r \<Rightarrow> Some r
               | None \<Rightarrow> m fl k s gs)
            else m fl k s gs))"
| "m fl (Plus lz c # k) s gs = m fl (Atom c # Star lz c # k) s gs"
| "m fl (Group g r # k) s gs = m fl (r @ Close g s # k) s gs"
| "m fl (Close g s0 # k) s gs =
     m fl k s ((g, take (length s0 - length s) s0) # gs)"
| "m fl (Opt r # k) s gs =
     (case m fl (r @ k) s gs of
        Some res \<Rightarrow> Some res
      | None \<Rightarrow> m fl k s gs)"
  by pat_completeness auto
termination
  by (relation "measures [\<lambda>(fl, k, s, gs). length s,
                          \<lambda>(fl, k, s, gs). sum_list (map weight k)]") auto

text \<open>\<^verbatim>\<open>m.group(name)\<close>: the last capture of the group, None when it took no part.\<close>

definition group :: "groups \<Rightarrow> string \<Rightarrow> string option" where
  "group gs g = map_of gs g"

text \<open>
  \<^verbatim>\<open>re.search\<close>: the first position, from the left, where the pattern matches. The result
  is the text skipped before the match, the input left after it, and the groups.
\<close>

fun search :: "flags \<Rightarrow> pattern \<Rightarrow> string \<Rightarrow> (string \<times> string \<times> groups) option" where
  "search fl p s =
     (case m fl p s [] of
        Some (rest, gs) \<Rightarrow> Some ([], rest, gs)
      | None \<Rightarrow>
         (case s of
            [] \<Rightarrow> None
          | x # xs \<Rightarrow>
             (case search fl p xs of
                None \<Rightarrow> None
              | Some (pre, rest, gs) \<Rightarrow> Some (x # pre, rest, gs))))"

text \<open>
  The non-overlapping matches of a pattern, left to right, with the text between them:
  what \<^verbatim>\<open>re.sub\<close> and \<^verbatim>\<open>re.findall\<close> iterate over. The text of a match is the part of
  the input between the skipped text and the input left. After a match the scan goes on
  in the input left; after an empty match at the very start it copies one character
  first (no pattern of this module matches the empty string).
\<close>

datatype segment =
    Unmatched string
  | Matched string groups

function segments :: "flags \<Rightarrow> pattern \<Rightarrow> string \<Rightarrow> segment list" where
  "segments fl p s =
     (case search fl p s of
        None \<Rightarrow> [Unmatched s]
      | Some (pre, rest, gs) \<Rightarrow>
          Unmatched pre
          # Matched (take (length s - length pre - length rest) (drop (length pre) s)) gs
          # (if length rest < length s then segments fl p rest
             else (case s of
                     [] \<Rightarrow> []
                   | x # xs \<Rightarrow> Unmatched [x] # segments fl p xs)))"
  by pat_completeness auto
termination
  by (relation "measure (\<lambda>(fl, p, s). length s)") auto

text \<open>\<^verbatim>\<open>re.sub(pattern, repl, string)\<close> with a function \<^verbatim>\<open>repl\<close> of the match.\<close>

fun render :: "(groups \<Rightarrow> string) \<Rightarrow> segment \<Rightarrow> string" where
  "render repl (Unmatched u) = u"
| "render repl (Matched t gs) = repl gs"

definition sub :: "flags \<Rightarrow> pattern \<Rightarrow> (groups \<Rightarrow> string) \<Rightarrow> string \<Rightarrow> string" where
  "sub fl p repl s = concat (map (render repl) (segments fl p s))"

text \<open>
  \<^verbatim>\<open>re.findall\<close> for a pattern with one group \<open>g\<close>: the text of the group in every match
  (the empty string if the group took no part).
\<close>

fun found :: "string \<Rightarrow> segment \<Rightarrow> string list" where
  "found g (Unmatched u) = []"
| "found g (Matched t gs) = [case group gs g of None \<Rightarrow> [] | Some x \<Rightarrow> x]"

definition findall :: "flags \<Rightarrow> pattern \<Rightarrow> string \<Rightarrow> string \<Rightarrow> string list" where
  "findall fl p g s = concat (map (found g) (segments fl p s))"

section \<open>Cloze handling\<close>

definition lits :: "string \<Rightarrow> pattern" where
  "lits cs = map (\<lambda>c. Atom (Lit c)) cs"

text \<open>
  \<^verbatim>\<open>clozeReg = r"(?si)\{\{(?P<tag>c)%s::(?P<content>.*?)(::(?P<hint>.*?))?\}\}"\<close>.
  The argument is the pattern interpolated for \<^verbatim>\<open>%s\<close>. The unnamed third group is
  named by its number.
\<close>

definition cloze_flags :: flags where
  "cloze_flags = \<lparr>ignorecase = True, dotall = True\<rparr>"

definition CLOZE_REGEX_MATCH_GROUP_TAG :: string where
  "CLOZE_REGEX_MATCH_GROUP_TAG = ''tag''"

definition CLOZE_REGEX_MATCH_GROUP_CONTENT :: string where
  "CLOZE_REGEX_MATCH_GROUP_CONTENT = ''content''"

definition CLOZE_REGEX_MATCH_GROUP_HINT :: string where
  "CLOZE_REGEX_MATCH_GROUP_HINT = ''hint''"

definition clozeReg :: "pattern \<Rightarrow> pattern" where
  "clozeReg ordp =
     lits ''{{'' @ [Group CLOZE_REGEX_MATCH_GROUP_TAG (lits ''c'')] @ ordp @ lits ''::''
     @ [Group CLOZE_REGEX_MATCH_GROUP_CONTENT [Star True Dot],
        Opt [Group ''3'' (lits ''::'' @ [Group CLOZE_REGEX_MATCH_GROUP_HINT [Star True Dot]])]]
     @ lits ''}}''"

text \<open>\<^verbatim>\<open>clozeReg % ord\<close> for a string of digits: the digits are literal characters.\<close>

definition clozeReg_ord :: "string \<Rightarrow> pattern" where
  "clozeReg_ord ord = clozeReg (lits ord)"

text \<open>\<^verbatim>\<open>clozeReg % ".+?"\<close>.\<close>

definition clozeReg_any :: pattern where
  "clozeReg_any = clozeReg [Plus True Dot]"

text \<open>\<^verbatim>\<open>r"{{c(\d+)::.+?}}"\<close>, with no flags.\<close>

definition scan_flags :: flags where
  "scan_flags = \<lparr>ignorecase = False, dotall = False\<rparr>"

definition scanReg :: pattern where
  "scanReg =
     lits ''{{c'' @ [Group ''1'' [Plus False Digit]] @ lits ''::'' @ [Plus True Dot] @ lits ''}}''"

text \<open>
  \<^verbatim>\<open>qrepl\<close>: Python's \<^verbatim>\<open>if m.group(...)\<close> is false for None and for the empty string.
\<close>

definition qrepl :: "groups \<Rightarrow> string" where
  "qrepl gs =
     (case group gs CLOZE_REGEX_MATCH_GROUP_HINT of
        None \<Rightarrow> ''[...]''
      | Some h \<Rightarrow> if h \<noteq> [] then ''['' @ h @ '']'' else ''[...]'')"

text \<open>
  \<^verbatim>\<open>arepl\<close>: the content group takes part in every match of \<^verbatim>\<open>clozeReg\<close>, so the
  None branch is never reached there.
\<close>

definition arepl :: "groups \<Rightarrow> string" where
  "arepl gs =
     (case group gs CLOZE_REGEX_MATCH_GROUP_CONTENT of
        None \<Rightarrow> []
      | Some c \<Rightarrow> c)"

text \<open>The set of ordinals: \<^verbatim>\<open>re.findall(r"{{c(\d+)::.+?}}", string)\<close>, as a list.\<close>

definition ordinals :: "string \<Rightarrow> string list" where
  "ordinals string = findall scan_flags scanReg ''1'' string"

text \<open>The body of the loop \<^verbatim>\<open>for ord in ords\<close>: the variant for one ordinal.\<close>

definition question_variant :: "string \<Rightarrow> string \<Rightarrow> string" where
  "question_variant ord string =
     (let s = sub cloze_flags (clozeReg_ord ord) qrepl string
      in sub cloze_flags clozeReg_any arepl s)"

definition revealed :: "string \<Rightarrow> string" where
  "revealed string = sub cloze_flags clozeReg_any arepl string"

text \<open>
  \<^verbatim>\<open>expand_clozes\<close>, for a given order \<open>ords\<close> of iteration over the set of ordinals.
  Python does not fix the order in which a set of strings is iterated;
  \<open>iterates xs ords\<close> says that \<open>ords\<close> is one such order for the set of the elements
  of \<open>xs\<close>. \<open>expand_clozes\<close> itself takes the order of first occurrence.
\<close>

definition expand_clozes_in :: "string list \<Rightarrow> string \<Rightarrow> string list" where
  "expand_clozes_in ords string =
     map (\<lambda>ord. question_variant ord string) ords @ [revealed string]"


definition expand_clozes :: "string \<Rightarrow> string list" where
  "expand_clozes string = expand_clozes_in (rev (remdups (rev (ordinals string)))) string"

section \<open>Rendering a card\<close>

text \<open>
  Exceptions are values. \<^verbatim>\<open>render_card\<close> catches \<^verbatim>\<open>BackendException\<close> only; the string
  is what \<^verbatim>\<open>str(e)\<close> gives. Any other exception is an \<open>OtherException\<close>.
\<close>

datatype exn =
    BackendException string
  | OtherException string

text \<open>
  \<^verbatim>\<open>TemplateRenderContext\<close>. The collection, the card and the note are opaque here; of
  the card only \<^verbatim>\<open>ord\<close> is read. \<open>extra_state\<close> is the dictionary that rendering hooks
  may write to.
\<close>

record 'x TemplateRenderContext =
  note_fields :: "string \<rightharpoonup> string"  \<comment> \<open>\<^verbatim>\<open>_fields\<close>, read by \<^verbatim>\<open>fields()\<close>\<close>
  qfmt :: string
  afmt :: string
  card_ord :: int
  extra_state :: 'x

record 'tag TemplateRenderOutput =
  question_text :: string
  answer_text :: string
  question_av_tags :: "'tag list"
  answer_av_tags :: "'tag list"

text \<open>
  A call that may raise and may change the context it is given: from the context to the
  result, or the exception, and the context afterwards.
\<close>

type_synonym ('a, 'x) act =
  "'x TemplateRenderContext \<Rightarrow> (exn + 'a) \<times> 'x TemplateRenderContext"

definition ret :: "'a \<Rightarrow> ('a, 'x) act" where
  "ret a = (\<lambda>ctx. (Inr a, ctx))"

definition bind :: "('a, 'x) act \<Rightarrow> ('a \<Rightarrow> ('b, 'x) act) \<Rightarrow> ('b, 'x) act" where
  "bind f g =
     (\<lambda>ctx. case f ctx of
               (Inl e, ctx') \<Rightarrow> (Inl e, ctx')
             | (Inr a, ctx') \<Rightarrow> g a ctx')"

text \<open>
  A filter registered with \<^verbatim>\<open>hooks.field_filter.append\<close> is called with
  \<^verbatim>\<open>(field_text, field_name, filter_name, ctx)\<close>; a legacy filter registered under a
  hook name is called with \<^verbatim>\<open>(field_text, "", fields, field_name, "")\<close>.
\<close>

type_synonym 'x field_filter_fn = "string \<Rightarrow> string \<Rightarrow> string \<Rightarrow> (string, 'x) act"

type_synonym 'x legacy_filter_fn =
  "string \<Rightarrow> string \<Rightarrow> (string \<rightharpoonup> string) \<Rightarrow> string \<Rightarrow> string \<Rightarrow> (string, 'x) act"

text \<open>
  Modelled from the spec: \<^verbatim>\<open>hooks.field_filter\<close> is defined in the module \<^verbatim>\<open>anki.hooks\<close>.
  The registry is a list of callables; each registered handler is asked in registration
  order, and the text a handler returns is the text the next one receives.
\<close>

fun field_filter ::
  "'x field_filter_fn list \<Rightarrow> string \<Rightarrow> string \<Rightarrow> string \<Rightarrow> (string, 'x) act" where
  "field_filter [] field_text fname filter_name = ret field_text"
| "field_filter (h # hs) field_text fname filter_name =
     bind (h field_text fname filter_name)
          (\<lambda>t. field_filter hs t fname filter_name)"

text \<open>
  Modelled from the spec: \<^verbatim>\<open>anki.hooks.runFilter\<close> is defined in the module \<^verbatim>\<open>anki.hooks\<close>.
  The legacy chain is looked up by its name; when no handler is registered under the
  name the argument is returned as it is.
\<close>

fun run_legacy ::
  "'x legacy_filter_fn list \<Rightarrow> string \<Rightarrow> string \<Rightarrow> (string \<rightharpoonup> string) \<Rightarrow> string \<Rightarrow> string
   \<Rightarrow> (string, 'x) act" where
  "run_legacy [] arg a1 a2 a3 a4 = ret arg"
| "run_legacy (h # hs) arg a1 a2 a3 a4 =
     bind (h arg a1 a2 a3 a4) (\<lambda>t. run_legacy hs t a1 a2 a3 a4)"

definition runFilter ::
  "(string \<rightharpoonup> 'x legacy_filter_fn list) \<Rightarrow> string \<Rightarrow> string \<Rightarrow> string
   \<Rightarrow> (string \<rightharpoonup> string) \<Rightarrow> string \<Rightarrow> string \<Rightarrow> (string, 'x) act" where
  "runFilter registry hook arg a1 a2 a3 a4 =
     (case registry hook of
        None \<Rightarrow> ret arg
      | Some hs \<Rightarrow> run_legacy hs arg a1 a2 a3 a4)"

text \<open>
  \<^verbatim>\<open>TemplateReplacementList\<close>: a node is a string or a field replacement with the
  filters that are still to be applied.
\<close>

record TemplateReplacement =
  field_name :: string
  current_text :: string
  filters :: "string list"

datatype node =
    Text string
  | Replacement TemplateReplacement

type_synonym node_list = "node list"

text \<open>
  What the module takes from outside: the two filter registries, the hook
  \<^verbatim>\<open>hooks.card_did_render\<close> (it receives the output and the context and may change
  both), the two calls to the backend, the translation function \<^verbatim>\<open>_\<close> and the
  constant \<^verbatim>\<open>HELP_SITE\<close>.
\<close>

record ('x, 'tag) env =
  field_filter_hooks :: "'x field_filter_fn list"
  legacy_hooks :: "string \<rightharpoonup> 'x legacy_filter_fn list"
  card_did_render ::
    "'tag TemplateRenderOutput \<Rightarrow> ('tag TemplateRenderOutput, 'x) act"
  backend_render_card ::
    "string \<Rightarrow> string \<Rightarrow> (string \<rightharpoonup> string) \<Rightarrow> int \<Rightarrow> exn + (node_list \<times> node_list)"
  backend_extract_av_tags :: "string \<Rightarrow> bool \<Rightarrow> exn + (string \<times> 'tag list)"
  translate :: "string \<Rightarrow> string"
  HELP_SITE :: string

text \<open>
  One turn of the loop \<^verbatim>\<open>for filter_name in node.filters\<close>: the registered filters,
  then the legacy filters under the name \<^verbatim>\<open>"fmod_" + filter_name\<close>, which receive the
  fields of the context.
\<close>

definition filter_step ::
  "('x, 'tag) env \<Rightarrow> string \<Rightarrow> string \<Rightarrow> string \<Rightarrow> (string, 'x) act" where
  "filter_step E fname filter_name field_text =
     bind (field_filter (field_filter_hooks E) field_text fname filter_name)
          (\<lambda>t ctx. runFilter (legacy_hooks E) (''fmod_'' @ filter_name) t []
                      (note_fields ctx) fname [] ctx)"

fun run_filters ::
  "('x, 'tag) env \<Rightarrow> string \<Rightarrow> string list \<Rightarrow> string \<Rightarrow> (string, 'x) act" where
  "run_filters E fname [] field_text = ret field_text"
| "run_filters E fname (filter_name # fs) field_text =
     bind (filter_step E fname filter_name field_text)
          (\<lambda>t. run_filters E fname fs t)"

text \<open>\<^verbatim>\<open>node.current_text = front_side\<close>, when the node is the front side and one is given.\<close>

definition inject_front_side :: "string option \<Rightarrow> TemplateReplacement \<Rightarrow> TemplateReplacement" where
  "inject_front_side front_side node =
     (case front_side of
        None \<Rightarrow> node
      | Some fs \<Rightarrow>
          if field_name node = ''FrontSide'' then node\<lparr>current_text := fs\<rparr> else node)"

text \<open>
  The loop \<^verbatim>\<open>for node in rendered\<close>, from the text \<open>res\<close> built so far. The nodes are
  returned as the loop leaves them, since it writes to \<^verbatim>\<open>node.current_text\<close>.
\<close>

fun nodes_loop ::
  "('x, 'tag) env \<Rightarrow> string option \<Rightarrow> node list \<Rightarrow> string \<Rightarrow> (string \<times> node list, 'x) act" where
  "nodes_loop E front_side [] res = ret (res, [])"
| "nodes_loop E front_side (Text t # ns) res =
     bind (nodes_loop E front_side ns (res @ t))
          (\<lambda>(r, ns'). ret (r, Text t # ns'))"
| "nodes_loop E front_side (Replacement node # ns) res =
     (let node' = inject_front_side front_side node in
      bind (run_filters E (field_name node') (filters node') (current_text node'))
           (\<lambda>field_text.
              bind (nodes_loop E front_side ns (res @ field_text))
                   (\<lambda>(r, ns'). ret (r, Replacement node' # ns'))))"

definition apply_custom_filters ::
  "('x, 'tag) env \<Rightarrow> node list \<Rightarrow> string option \<Rightarrow> (string \<times> node list, 'x) act" where
  "apply_custom_filters E rendered front_side =
     (case rendered of
        [Text t] \<Rightarrow> ret (t, rendered)
      | _ \<Rightarrow> nodes_loop E front_side rendered [])"

text \<open>A call to the backend: it may raise, and leaves the context alone.\<close>

definition backend_call :: "exn + 'a \<Rightarrow> ('a, 'x) act" where
  "backend_call r = (\<lambda>ctx. (r, ctx))"

definition render_card_from_context ::
  "('x, 'tag) env \<Rightarrow> ('tag TemplateRenderOutput, 'x) act" where
  "render_card_from_context E =
     (\<lambda>ctx.
        bind (backend_call (backend_render_card E (qfmt ctx) (afmt ctx) (note_fields ctx) (card_ord ctx)))
          (\<lambda>(qnodes, anodes).
             bind (apply_custom_filters E qnodes None)
               (\<lambda>(qtext0, qnodes').
                  bind (backend_call (backend_extract_av_tags E qtext0 True))
                    (\<lambda>(qtext, q_avtags).
                       bind (apply_custom_filters E anodes (Some qtext))
                         (\<lambda>(atext0, anodes').
                            bind (backend_call (backend_extract_av_tags E atext0 False))
                              (\<lambda>(atext, a_avtags).
                                 ret \<lparr>question_text = qtext,
                                      answer_text = atext,
                                      question_av_tags = q_avtags,
                                      answer_av_tags = a_avtags\<rparr>))))) ctx)"

text \<open>
  \<^verbatim>\<open>str.strip()\<close> with no argument removes white space at both ends. The characters of
  \<^typ>\<open>char\<close> that Python counts as white space, by code point.
\<close>

definition isspace :: "char \<Rightarrow> bool" where
  "isspace c \<longleftrightarrow>
     (of_char c :: nat) \<in> {9, 10, 11, 12, 13, 28, 29, 30, 31, 32, 133, 160}"

definition strip :: "string \<Rightarrow> string" where
  "strip s = rev (dropWhile isspace (rev (dropWhile isspace s)))"

definition error_message :: "('x, 'tag) env \<Rightarrow> string \<Rightarrow> string" where
  "error_message E e = translate E ''Card template has a problem:'' @ ''<br>'' @ e"

definition blank_message :: "('x, 'tag) env \<Rightarrow> string" where
  "blank_message E =
     translate E ''The front of this card is blank.''
     @ ''<a href='' @ [CHR 0x27] @ HELP_SITE E @ [CHR 0x27] @ ''>''
     @ translate E ''More info'' @ ''</a>''"

text \<open>The \<^verbatim>\<open>try\<close> statement of \<^verbatim>\<open>render_card\<close>: only a \<^verbatim>\<open>BackendException\<close> is caught.\<close>

definition render_or_error ::
  "('x, 'tag) env \<Rightarrow> ('tag TemplateRenderOutput, 'x) act" where
  "render_or_error E =
     (\<lambda>ctx. case render_card_from_context E ctx of
               (Inr output, ctx') \<Rightarrow> (Inr output, ctx')
             | (Inl (BackendException e), ctx') \<Rightarrow>
                 (Inr \<lparr>question_text = error_message E e,
                       answer_text = error_message E e,
                       question_av_tags = [],
                       answer_av_tags = []\<rparr>, ctx')
             | (Inl (OtherException e), ctx') \<Rightarrow> (Inl (OtherException e), ctx'))"

text \<open>The statement \<^verbatim>\<open>if not output.question_text.strip()\<close>.\<close>

definition fill_blank ::
  "('x, 'tag) env \<Rightarrow> 'tag TemplateRenderOutput \<Rightarrow> 'tag TemplateRenderOutput" where
  "fill_blank E output =
     (if strip (question_text output) = []
      then output\<lparr>question_text := blank_message E\<rparr>
      else output)"

text \<open>
  \<^verbatim>\<open>render_card\<close>, from the context that its first lines build out of the collection,
  the card and the note. The output as it is when \<^verbatim>\<open>hooks.card_did_render\<close> is called
  is \<open>rendered_output\<close>.
\<close>

definition rendered_output ::
  "('x, 'tag) env \<Rightarrow> ('tag TemplateRenderOutput, 'x) act" where
  "rendered_output E = bind (render_or_error E) (\<lambda>output. ret (fill_blank E output))"

definition render_card ::
  "('x, 'tag) env \<Rightarrow> ('tag TemplateRenderOutput, 'x) act" where
  "render_card E = bind (rendered_output E) (\<lambda>output. card_did_render E output)"

section \<open>Notions of the specification\<close>

text \<open>
  A registered filter has no name: it is called for every filter of every field, and
  the module's documentation asks it to check the \<^verbatim>\<open>filter_name\<close> argument and to
  return the text whether it has been modified or not. A filter \<open>ignores\<close> a filter name
  when it returns the text it was given, whatever the text and the field.
\<close>

definition ignores :: "'x field_filter_fn \<Rightarrow> string \<Rightarrow> bool" where
  "ignores h filter_name \<longleftrightarrow> (\<forall>t fname. h t fname filter_name = ret t)"

text \<open>
  A filter name has no registered handler in either chain: every registered filter
  ignores it, and the legacy chain of the name is missing or empty.
\<close>

definition unregistered :: "('x, 'tag) env \<Rightarrow> string \<Rightarrow> bool" where
  "unregistered E filter_name \<longleftrightarrow>
     list_all (\<lambda>h. ignores h filter_name) (field_filter_hooks E) \<and>
     (legacy_hooks E (''fmod_'' @ filter_name) = None \<or>
      legacy_hooks E (''fmod_'' @ filter_name) = Some [])"



text \<open>The text \<open>t\<close> begins with \<open>p\<close>.\<close>

definition starts :: "string \<Rightarrow> string \<Rightarrow> bool" where
  "starts p t \<longleftrightarrow> take (length p) t = p"

text \<open>A string of ASCII digits, as \<^verbatim>\<open>\d+\<close> captures it.\<close>

definition digit :: "char \<Rightarrow> bool" where
  "digit c \<longleftrightarrow> 48 \<le> (of_char c :: nat) \<and> (of_char c :: nat) \<le> 57"

definition digits :: "string \<Rightarrow> bool" where
  "digits k \<longleftrightarrow> list_all digit k"

section \<open>Example environments\<close>

text \<open>A filter that handles the filter name \<^verbatim>\<open>shout\<close> and leaves every other name alone.\<close>

definition shout_filter :: "unit field_filter_fn" where
  "shout_filter field_text fname filter_name =
     (if filter_name = ''shout'' then ret (field_text @ ''!'') else ret field_text)"

text \<open>A filter that appends the name of the filter to the text.\<close>

definition tag_filter :: "unit field_filter_fn" where
  "tag_filter field_text fname filter_name = ret (field_text @ filter_name)"

text \<open>
  An environment whose backend rejects every template, and in which an add-on has
  registered a \<^verbatim>\<open>card_did_render\<close> hook that rewrites the answer.
\<close>

definition failing_env :: "(unit, nat) env" where
  "failing_env =
     \<lparr>field_filter_hooks = [shout_filter],
      legacy_hooks = Map.empty,
      card_did_render = (\<lambda>output. ret (output\<lparr>answer_text := ''changed''\<rparr>)),
      backend_render_card = (\<lambda>q a f n. Inl (BackendException ''boom'')),
      backend_extract_av_tags = (\<lambda>t q. Inr (t, [])),
      translate = (\<lambda>t. t),
      HELP_SITE = ''help''\<rparr>"

text \<open>The same backend, with no \<^verbatim>\<open>card_did_render\<close> hook.\<close>

definition rejecting_env :: "(unit, nat) env" where
  "rejecting_env = failing_env\<lparr>card_did_render := ret\<rparr>"

text \<open>An environment whose backend renders a question of one space.\<close>

definition blank_env :: "(unit, nat) env" where
  "blank_env =
     \<lparr>field_filter_hooks = [tag_filter],
      legacy_hooks = Map.empty,
      card_did_render = ret,
      backend_render_card = (\<lambda>q a f n. Inr ([Text '' ''], [Text ''back''])),
      backend_extract_av_tags = (\<lambda>t q. Inr (t, [])),
      translate = (\<lambda>t. t),
      HELP_SITE = ''help''\<rparr>"

text \<open>
  The environment \<open>blank_env\<close> with a legacy filter registered under \<^verbatim>\<open>fmod_b\<close>, which
  puts the text in parentheses.
\<close>

definition legacy_env :: "(unit, nat) env" where
  "legacy_env =
     blank_env\<lparr>legacy_hooks :=
       [''fmod_b'' \<mapsto> [\<lambda>t a1 flds fname a4. ret (''('' @ t @ '')'')]]\<rparr>"

definition ctx0 :: "unit TemplateRenderContext" where
  "ctx0 = \<lparr>note_fields = Map.empty, qfmt = ''q'', afmt = ''a'', card_ord = 0, extra_state = ()\<rparr>"

section \<open>The filter pipeline\<close>

lemma bind_ret: "bind (ret a) g = g a"
  by (simp add: bind_def ret_def)

lemma bind_assoc: "bind (bind f g) h = bind f (\<lambda>a. bind (g a) h)"
  by (auto simp: bind_def fun_eq_iff split: prod.splits sum.splits)

lemma bind_ret_right: "bind f ret = f"
  by (auto simp: bind_def ret_def fun_eq_iff split: prod.splits sum.splits)

lemma bind_cong_fun: "(\<And>a. g a = g' a) \<Longrightarrow> bind f g = bind f g'"
  by (simp add: fun_eq_iff bind_def split: prod.splits sum.splits)

text \<open>The loop over two lists of nodes is the loop over the first, then over the second.\<close>

lemma nodes_loop_append:
  "nodes_loop E fs (xs @ ys) res =
     bind (nodes_loop E fs xs res)
          (\<lambda>(r, xs'). bind (nodes_loop E fs ys r) (\<lambda>(r', ys'). ret (r', xs' @ ys')))"
proof (induction xs arbitrary: res)
  case Nil
  show ?case
    by (simp add: bind_ret) (simp add: bind_def ret_def fun_eq_iff split: prod.splits sum.splits)
next
  case (Cons x xs)
  show ?case
  proof (cases x)
    case (Text t)
    then show ?thesis
      by (simp add: Cons.IH bind_assoc split_def bind_ret)
  next
    case (Replacement n)
    then show ?thesis
      by (simp add: Cons.IH bind_assoc split_def bind_ret Let_def)
  qed
qed

text \<open>A sequence with a field replacement in it never takes the fast path.\<close>

lemma apply_custom_filters_loop:
  "apply_custom_filters E (pre @ Replacement n # post) fs =
     nodes_loop E fs (pre @ Replacement n # post) []"
  by (cases pre; cases "tl pre"; cases "hd pre"; cases post)
     (auto simp: apply_custom_filters_def split: list.splits node.splits)

lemma run_filters_two:
  "run_filters E fn [f1, f2] t =
     bind (filter_step E fn f1 t) (\<lambda>t1. filter_step E fn f2 t1)"
proof -
  have nil: "run_filters E fn [] = ret"
    by (rule ext) simp
  show ?thesis
    by (simp, rule bind_cong_fun) (simp add: nil bind_ret_right)
qed

text \<open>What a field replacement anywhere in the sequence adds to the result.\<close>

lemma placeholder_in_sequence:
  "apply_custom_filters E (pre @ Replacement n # post) fs =
     bind (nodes_loop E fs pre [])
       (\<lambda>(r, pre').
          bind (run_filters E (field_name (inject_front_side fs n))
                  (filters (inject_front_side fs n)) (current_text (inject_front_side fs n)))
            (\<lambda>field_text.
               bind (nodes_loop E fs post (r @ field_text))
                 (\<lambda>(r', post'). ret (r', pre' @ Replacement (inject_front_side fs n) # post'))))"
  unfolding apply_custom_filters_loop nodes_loop_append
  by (rule bind_cong_fun) (simp add: split_def Let_def bind_assoc bind_ret)

text \<open>
  The loop only appends to the text built so far: started from \<open>res\<close>, it returns
  \<open>res\<close> followed by what it returns when started from the empty text.
\<close>

lemma nodes_loop_acc:
  "nodes_loop E fs ns res = bind (nodes_loop E fs ns []) (\<lambda>(r, ns'). ret (res @ r, ns'))"
proof (induction ns arbitrary: res)
  case Nil
  show ?case by (simp add: bind_ret)
next
  case (Cons x xs)
  show ?case
  proof (cases x)
    case (Text t)
    show ?thesis
      unfolding Text nodes_loop.simps
      by (subst Cons.IH, subst (2) Cons.IH) (simp add: bind_assoc split_def bind_ret)
  next
    case (Replacement n)
    show ?thesis
      unfolding Replacement nodes_loop.simps Let_def
      by (subst Cons.IH, subst (2) Cons.IH) (simp add: bind_assoc split_def bind_ret)
  qed
qed

text \<open>
  Claim C1. A placeholder with the filter list \<open>[f1, f2]\<close> and the text \<open>t\<close>, anywhere in
  a node sequence, on the question side (no front side) and on the answer side (a front
  side is given). The filters start from \<open>t0\<close>: the text \<open>t\<close>, or the front side when one
  is given and the field is \<^verbatim>\<open>FrontSide\<close>. The calls are made in this order, each on the
  text that the call before it returned: the registered filters for \<open>f1\<close> on \<open>t0\<close>, the
  legacy filters \<^verbatim>\<open>fmod_f1\<close> on their output \<open>a1\<close>, the registered filters for \<open>f2\<close> on
  the output \<open>t1\<close> of the step for \<open>f1\<close>, the legacy filters \<^verbatim>\<open>fmod_f2\<close> on their output
  \<open>a2\<close>. The text \<open>t2\<close> that the step for \<open>f2\<close> returns is what the placeholder adds to
  the result: the result is the text of the nodes before it, then \<open>t2\<close>, then the text of
  the nodes after it. So the list is folded from the left, \<open>f2\<close> after \<open>f1\<close> and on the
  output of \<open>f1\<close>. An exception raised by any call ends the whole run.
\<close>

theorem filters_fold_left_to_right:
  assumes "t0 = (case front_side of
                   None \<Rightarrow> t
                 | Some fs \<Rightarrow> if fn = ''FrontSide'' then fs else t)"
  shows "apply_custom_filters E
     (pre @ Replacement \<lparr>field_name = fn, current_text = t, filters = [f1, f2]\<rparr> # post) front_side =
   bind (nodes_loop E front_side pre [])
     (\<lambda>(r_pre, pre').
        bind (field_filter (field_filter_hooks E) t0 fn f1)
          (\<lambda>a1. bind (\<lambda>ctx. runFilter (legacy_hooks E) (''fmod_'' @ f1) a1 [] (note_fields ctx) fn [] ctx)
          (\<lambda>t1. bind (field_filter (field_filter_hooks E) t1 fn f2)
          (\<lambda>a2. bind (\<lambda>ctx. runFilter (legacy_hooks E) (''fmod_'' @ f2) a2 [] (note_fields ctx) fn [] ctx)
          (\<lambda>t2. bind (nodes_loop E front_side post [])
             (\<lambda>(r_post, post').
                ret (r_pre @ t2 @ r_post,
                     pre' @ Replacement \<lparr>field_name = fn, current_text = t0, filters = [f1, f2]\<rparr>
                       # post')))))))"
proof -
  let ?n = "\<lparr>field_name = fn, current_text = t, filters = [f1, f2]\<rparr>"
  have n: "inject_front_side front_side ?n = \<lparr>field_name = fn, current_text = t0, filters = [f1, f2]\<rparr>"
    using assms by (simp add: inject_front_side_def split: option.splits)
  have acc: "\<And>r. nodes_loop E front_side post r =
      bind (nodes_loop E front_side post []) (\<lambda>(r', ns'). ret (r @ r', ns'))"
    by (rule nodes_loop_acc)
  show ?thesis
    unfolding placeholder_in_sequence n
    apply (rule bind_cong_fun)
    apply (subst acc)
    apply (simp add: split_def run_filters_two filter_step_def bind_assoc bind_ret del: run_filters.simps)
    done
qed

text \<open>
  With a registered filter that appends the name of the filter, and a legacy filter
  \<^verbatim>\<open>fmod_b\<close> that puts the text in parentheses: the filters \<open>[a, b]\<close> on \<open>t\<close> give
  \<open>(tab)\<close>, the filters \<open>[b, a]\<close> give \<open>(tb)a\<close>, and on the answer side the placeholder
  \<^verbatim>\<open>FrontSide\<close> starts from the front side \<open>q\<close>.
\<close>

theorem filters_fold_left_to_right_witness:
  "apply_custom_filters legacy_env
     ([Text ''<''] @ Replacement \<lparr>field_name = ''F'', current_text = ''t'', filters = [''a'', ''b'']\<rparr>
        # [Text ''>'']) (Some ''q'') ctx0 =
   (Inr (''<(tab)>'',
         [Text ''<'', Replacement \<lparr>field_name = ''F'', current_text = ''t'', filters = [''a'', ''b'']\<rparr>,
          Text ''>'']), ctx0)
   \<and>
   apply_custom_filters legacy_env
     ([Text ''<''] @ Replacement \<lparr>field_name = ''F'', current_text = ''t'', filters = [''b'', ''a'']\<rparr>
        # [Text ''>'']) None ctx0 =
   (Inr (''<(tb)a>'',
         [Text ''<'', Replacement \<lparr>field_name = ''F'', current_text = ''t'', filters = [''b'', ''a'']\<rparr>,
          Text ''>'']), ctx0)
   \<and>
   apply_custom_filters legacy_env
     ([] @ Replacement \<lparr>field_name = ''FrontSide'', current_text = ''t'', filters = [''a'', ''b'']\<rparr>
        # [Text ''>'']) (Some ''q'') ctx0 =
   (Inr (''(qab)>'',
         [Replacement \<lparr>field_name = ''FrontSide'', current_text = ''q'', filters = [''a'', ''b'']\<rparr>,
          Text ''>'']), ctx0)"
  using
    filters_fold_left_to_right [where ?t0.0 = "''t''" and front_side = "Some ''q''" and t = "''t''"
      and fn = "''F''" and E = legacy_env and pre = "[Text ''<'']" and ?f1.0 = "''a''" and ?f2.0 = "''b''"
      and post = "[Text ''>'']"]
    filters_fold_left_to_right [where ?t0.0 = "''t''" and front_side = None and t = "''t''"
      and fn = "''F''" and E = legacy_env and pre = "[Text ''<'']" and ?f1.0 = "''b''" and ?f2.0 = "''a''"
      and post = "[Text ''>'']"]
    filters_fold_left_to_right [where ?t0.0 = "''q''" and front_side = "Some ''q''" and t = "''t''"
      and fn = "''FrontSide''" and E = legacy_env and pre = "[]" and ?f1.0 = "''a''" and ?f2.0 = "''b''"
      and post = "[Text ''>'']"]
  by (simp add: legacy_env_def blank_env_def tag_filter_def runFilter_def bind_def ret_def)

lemma field_filter_ignored:
  "list_all (\<lambda>h. ignores h name) hs \<Longrightarrow> field_filter hs t fn name = ret t"
  by (induction hs) (auto simp: ignores_def bind_ret)

text \<open>
  Claim C4. For a filter name with no registered handler in either chain, the filter
  step returns the text unchanged, raises nothing and leaves the context as it was.
\<close>

theorem unregistered_filter_is_identity:
  "unregistered E filter_name \<Longrightarrow> filter_step E fname filter_name t ctx = (Inr t, ctx)"
  by (auto simp: unregistered_def filter_step_def field_filter_ignored runFilter_def ret_def bind_def)

theorem unregistered_filter_is_identity_witness:
  "unregistered failing_env ''cloze'' \<and>
   filter_step failing_env ''Front'' ''cloze'' ''text'' ctx0 = (Inr ''text'', ctx0)"
proof -
  have u: "unregistered failing_env ''cloze''"
    by (simp add: unregistered_def failing_env_def ignores_def shout_filter_def)
  show ?thesis
    using u unregistered_filter_is_identity [OF u, of "''Front''" "''text''" ctx0] by simp
qed

text \<open>
  Claim C5. A placeholder whose field name is \<^verbatim>\<open>FrontSide\<close>, anywhere in a node sequence.
  When a front side is supplied, the filters run on the supplied value, not on the text
  \<open>t\<close> the placeholder held, and the node is left holding the supplied value. When none
  is supplied, the filters run on \<open>t\<close> and the node is unchanged.
\<close>

theorem front_side_replaces_current_text:
  "apply_custom_filters E
     (pre @ Replacement \<lparr>field_name = ''FrontSide'', current_text = t, filters = fs\<rparr> # post)
     (Some front_side) =
   bind (nodes_loop E (Some front_side) pre [])
     (\<lambda>(r, pre').
        bind (run_filters E ''FrontSide'' fs front_side)
          (\<lambda>field_text.
             bind (nodes_loop E (Some front_side) post (r @ field_text))
               (\<lambda>(r', post').
                  ret (r', pre' @ Replacement \<lparr>field_name = ''FrontSide'',
                                               current_text = front_side, filters = fs\<rparr>
                                 # post'))))
   \<and>
   apply_custom_filters E
     (pre @ Replacement \<lparr>field_name = ''FrontSide'', current_text = t, filters = fs\<rparr> # post)
     None =
   bind (nodes_loop E None pre [])
     (\<lambda>(r, pre').
        bind (run_filters E ''FrontSide'' fs t)
          (\<lambda>field_text.
             bind (nodes_loop E None post (r @ field_text))
               (\<lambda>(r', post').
                  ret (r', pre' @ Replacement \<lparr>field_name = ''FrontSide'',
                                               current_text = t, filters = fs\<rparr>
                                 # post'))))"
  unfolding placeholder_in_sequence
  by (simp add: inject_front_side_def)

section \<open>The fallbacks of \<^verbatim>\<open>render_card\<close>\<close>

lemma strip_empty_iff: "strip s = [] \<longleftrightarrow> (\<forall>c\<in>set s. isspace c)"
proof
  assume "strip s = []"
  then have all: "\<forall>c\<in>set (dropWhile isspace s). isspace c"
    by (simp add: strip_def dropWhile_eq_Nil_conv)
  have "dropWhile isspace s = []"
  proof (cases "dropWhile isspace s")
    case Nil
    then show ?thesis .
  next
    case (Cons c cs)
    then have "\<not> isspace c"
      using hd_dropWhile [of isspace s] by simp
    with all Cons show ?thesis by simp
  qed
  then show "\<forall>c\<in>set s. isspace c"
    by (simp add: dropWhile_eq_Nil_conv)
next
  assume "\<forall>c\<in>set s. isspace c"
  then show "strip s = []"
    by (auto simp: strip_def dest: set_dropWhileD)
qed

text \<open>The error message holds \<^verbatim>\<open><br>\<close>, so it is never taken for a blank question.\<close>

lemma error_message_not_blank: "strip (error_message E e) \<noteq> []"
proof -
  have "\<not> isspace CHR ''<''"
    by (simp add: isspace_def)
  moreover have "CHR ''<'' \<in> set (error_message E e)"
    by (simp add: error_message_def)
  ultimately show ?thesis
    unfolding strip_empty_iff by blast
qed

text \<open>
  Claim C9, as stated, at an environment where the backend raises and an add-on has
  registered a \<^verbatim>\<open>card_did_render\<close> hook: the output that \<^verbatim>\<open>render_card\<close> returns has
  the error message as its question and another text as its answer.
\<close>

theorem render_card_hook_counterexample:
  "render_card failing_env ctx0 =
     (Inr \<lparr>question_text = ''Card template has a problem:<br>boom'',
           answer_text = ''changed'',
           question_av_tags = [], answer_av_tags = []\<rparr>, ctx0)"
  by (simp add: render_card_def rendered_output_def render_or_error_def render_card_from_context_def
      backend_call_def bind_def ret_def fill_blank_def failing_env_def ctx0_def error_message_def
      strip_def isspace_def)

text \<open>
  Claim C9, amended. When the renderer fails with a backend exception, the output that
  \<^verbatim>\<open>render_card\<close> hands to the \<^verbatim>\<open>card_did_render\<close> hook has the same error message as
  question and as answer and no media tags. When the rendered question is empty or white
  space only, the output handed to the hook has the blank-front message as its question,
  and that message holds a link to the help site. \<^verbatim>\<open>render_card\<close> returns what the hook
  makes of that output: the output itself when no hook changes it.
\<close>

theorem render_card_fallbacks:
  "(render_card_from_context E ctx = (Inl (BackendException e), ctx') \<longrightarrow>
      rendered_output E ctx =
        (Inr \<lparr>question_text = error_message E e, answer_text = error_message E e,
              question_av_tags = [], answer_av_tags = []\<rparr>, ctx'))
   \<and> (render_card_from_context E ctx = (Inr output, ctx') \<and> strip (question_text output) = [] \<longrightarrow>
      rendered_output E ctx = (Inr (output\<lparr>question_text := blank_message E\<rparr>), ctx'))
   \<and> (\<exists>a b. blank_message E = a @ ''<a href='' @ [CHR 0x27] @ HELP_SITE E @ [CHR 0x27] @ ''>'' @ b)
   \<and> render_card E = bind (rendered_output E) (card_did_render E)
   \<and> (card_did_render E = ret \<longrightarrow> render_card E = rendered_output E)"
proof (intro conjI impI)
  assume "render_card_from_context E ctx = (Inl (BackendException e), ctx')"
  then show "rendered_output E ctx =
        (Inr \<lparr>question_text = error_message E e, answer_text = error_message E e,
              question_av_tags = [], answer_av_tags = []\<rparr>, ctx')"
    using error_message_not_blank [of E e]
    by (simp add: rendered_output_def render_or_error_def bind_def ret_def fill_blank_def)
next
  assume "render_card_from_context E ctx = (Inr output, ctx') \<and> strip (question_text output) = []"
  then show "rendered_output E ctx = (Inr (output\<lparr>question_text := blank_message E\<rparr>), ctx')"
    by (simp add: rendered_output_def render_or_error_def bind_def ret_def fill_blank_def)
next
  show "\<exists>a b. blank_message E = a @ ''<a href='' @ [CHR 0x27] @ HELP_SITE E @ [CHR 0x27] @ ''>'' @ b"
    unfolding blank_message_def by (metis append.assoc)
next
  show "render_card E = bind (rendered_output E) (card_did_render E)"
    by (simp add: render_card_def)
next
  assume "card_did_render E = ret"
  then show "render_card E = rendered_output E"
    by (simp add: render_card_def bind_ret_right)
qed

theorem render_card_fallbacks_witness:
  "render_card_from_context rejecting_env ctx0 = (Inl (BackendException ''boom''), ctx0)
   \<and> render_card rejecting_env ctx0 =
       (Inr \<lparr>question_text = ''Card template has a problem:<br>boom'',
             answer_text = ''Card template has a problem:<br>boom'',
             question_av_tags = [], answer_av_tags = []\<rparr>, ctx0)
   \<and> render_card_from_context blank_env ctx0 =
       (Inr \<lparr>question_text = '' '', answer_text = ''back'',
             question_av_tags = [], answer_av_tags = []\<rparr>, ctx0)
   \<and> strip '' '' = []
   \<and> render_card blank_env ctx0 =
       (Inr \<lparr>question_text = ''The front of this card is blank.<a href='' @ [CHR 0x27] @ ''help'' @ [CHR 0x27] @ ''>More info</a>'',
             answer_text = ''back'',
             question_av_tags = [], answer_av_tags = []\<rparr>, ctx0)"
proof -
  have r1: "render_card_from_context rejecting_env ctx0 = (Inl (BackendException ''boom''), ctx0)"
    by (simp add: render_card_from_context_def rejecting_env_def failing_env_def backend_call_def
        bind_def ctx0_def)
  have r2: "render_card_from_context blank_env ctx0 =
       (Inr \<lparr>question_text = '' '', answer_text = ''back'',
             question_av_tags = [], answer_av_tags = []\<rparr>, ctx0)"
    by (simp add: render_card_from_context_def blank_env_def backend_call_def
        apply_custom_filters_def bind_def ret_def ctx0_def)
  have s: "strip '' '' = []"
    by (simp add: strip_def isspace_def)
  have h1: "card_did_render rejecting_env = ret"
    by (simp add: rejecting_env_def)
  have h2: "card_did_render blank_env = ret"
    by (simp add: blank_env_def)
  have e: "error_message rejecting_env ''boom'' = ''Card template has a problem:<br>boom''"
    by (simp add: error_message_def rejecting_env_def failing_env_def)
  have b: "blank_message blank_env =
      ''The front of this card is blank.<a href='' @ [CHR 0x27] @ ''help'' @ [CHR 0x27] @ ''>More info</a>''"
    by (simp add: blank_message_def blank_env_def)
  note t1 = render_card_fallbacks [of rejecting_env ctx0 "''boom''" ctx0]
  note t2 = render_card_fallbacks [of blank_env ctx0 _ ctx0
        "\<lparr>question_text = '' '', answer_text = ''back'', question_av_tags = [], answer_av_tags = []\<rparr>"]
  have o1: "rendered_output rejecting_env ctx0 =
        (Inr \<lparr>question_text = error_message rejecting_env ''boom'',
              answer_text = error_message rejecting_env ''boom'',
              question_av_tags = [], answer_av_tags = []\<rparr>, ctx0)"
    using t1 r1 by blast
  have c1: "render_card rejecting_env = rendered_output rejecting_env"
    using t1 h1 by blast
  have o2: "rendered_output blank_env ctx0 =
        (Inr (\<lparr>question_text = '' '', answer_text = ''back'',
               question_av_tags = [], answer_av_tags = []\<rparr>\<lparr>question_text := blank_message blank_env\<rparr>), ctx0)"
    using t2 r2 s by simp
  have c2: "render_card blank_env = rendered_output blank_env"
    using t2 h2 by blast
  show ?thesis
    using r1 r2 s by (simp add: c1 c2 o1 o2 e b)
qed

section \<open>Matches and segments\<close>

text \<open>What is left after a match is a suffix of the input.\<close>

lemma m_suffix: "m fl k s gs = Some (r, gs') \<Longrightarrow> \<exists>u. s = u @ r"
proof (induction fl k s gs arbitrary: r gs' rule: m.induct)
  case (1 fl s gs)
  then show ?case by simp
next
  case (2 fl c k s gs)
  then show ?case
    by (cases s) (auto split: if_splits, metis append_Cons)
next
  case (3 fl lz c k s gs)
  show ?case
  proof (cases lz)
    case True
    show ?thesis
    proof (cases "m fl k s gs")
      case (Some a)
      with 3 True show ?thesis by auto
    next
      case None
      with 3 True show ?thesis
        by (cases s) (auto split: if_splits, metis append_Cons)
    qed
  next
    case False
    show ?thesis
    proof (cases s)
      case Nil
      with 3 False show ?thesis by auto
    next
      case (Cons x xs)
      show ?thesis
      proof (cases "cmatch fl c x")
        case t: True
        show ?thesis
        proof (cases "m fl (Star lz c # k) xs gs")
          case None
          with 3 False Cons t show ?thesis by auto
        next
          case (Some a)
          with 3 False Cons t show ?thesis
            by (auto, metis append_Cons)
        qed
      next
        case f: False
        with 3 False Cons show ?thesis by auto
      qed
    qed
  qed
next
  case (4 fl lz c k s gs)
  then show ?case by simp
next
  case (5 fl g r' k s gs)
  then show ?case by simp
next
  case (6 fl g s0 k s gs)
  then show ?case by simp
next
  case (7 fl r' k s gs)
  then show ?case
    by (cases "m fl (r' @ k) s gs") auto
qed

lemma search_split:
  "search fl p s = Some (pre, rest, gs) \<Longrightarrow>
     \<exists>t. s = pre @ t @ rest \<and> m fl p (t @ rest) [] = Some (rest, gs)"
proof (induction s arbitrary: pre)
  case Nil
  then show ?case
    by (auto split: option.splits dest: m_suffix)
next
  case (Cons x xs)
  show ?case
  proof (cases "m fl p (x # xs) []")
    case (Some a)
    with Cons.prems have a: "a = (rest, gs)" "pre = []"
      by (auto split: prod.splits)
    with Some obtain u where "x # xs = u @ rest"
      using m_suffix by blast
    with Some a show ?thesis by auto
  next
    case None
    with Cons.prems obtain pre' where s: "search fl p xs = Some (pre', rest, gs)" "pre = x # pre'"
      by (auto split: option.splits)
    from Cons.IH [OF s(1)] s(2) show ?thesis by auto
  qed
qed



lemma matched_is_match:
  "Matched t gs \<in> set (segments fl p s) \<Longrightarrow> \<exists>rest. m fl p (t @ rest) [] = Some (rest, gs)"
proof (induction fl p s rule: segments.induct)
  case (1 fl p s)
  show ?case
  proof (cases "search fl p s")
    case None
    with 1(3) show ?thesis
      by (subst (asm) segments.simps) simp
  next
    case (Some a)
    then obtain pre rest gs' where a: "search fl p s = Some (pre, rest, gs')"
      by (cases a) auto
    then obtain t' where t: "s = pre @ t' @ rest" "m fl p (t' @ rest) [] = Some (rest, gs')"
      using search_split by blast
    then have tk: "take (length s - length pre - length rest) (drop (length pre) s) = t'"
      by simp
    from 1(3) a tk have "(t = t' \<and> gs = gs') \<or>
        (length rest < length s \<and> Matched t gs \<in> set (segments fl p rest)) \<or>
        (\<not> length rest < length s \<and> (\<exists>x xs. s = x # xs \<and> Matched t gs \<in> set (segments fl p xs)))"
      by (subst (asm) segments.simps) (auto split: if_splits list.splits)
    then show ?thesis
      using t(2) 1(1) [OF a refl refl] 1(2) [OF a refl refl] by blast
  qed
qed

section \<open>Case folding\<close>

text \<open>Folding the case changes the 26 capital letters only.\<close>

lemma of_char_lower:
  "(of_char (lower x) :: nat) =
     (if 65 \<le> (of_char x :: nat) \<and> (of_char x :: nat) \<le> 90 then of_char x + 32 else of_char x)"
  by (simp add: lower_def)

lemma lower_fixed:
  assumes "(of_char d :: nat) < 65 \<or> 122 < (of_char d :: nat) \<or>
           (90 < (of_char d :: nat) \<and> (of_char d :: nat) < 97)"
  shows "lower x = lower d \<longleftrightarrow> x = d"
proof
  assume e: "lower x = lower d"
  from assms have d: "lower d = d"
    by (auto simp: lower_def)
  from e d have "(of_char (lower x) :: nat) = of_char d"
    by simp
  with assms have "\<not> (65 \<le> (of_char x :: nat) \<and> (of_char x :: nat) \<le> 90)"
    unfolding of_char_lower by (auto split: if_splits)
  then have "lower x = x"
    by (auto simp: lower_def)
  with e d show "x = d"
    by simp
next
  assume "x = d"
  then show "lower x = lower d"
    by simp
qed

lemma lower_digit: "digit d \<Longrightarrow> lower x = lower d \<longleftrightarrow> x = d"
  by (rule lower_fixed) (auto simp: digit_def)

lemma lower_colon: "lower x = lower CHR '':'' \<longleftrightarrow> x = CHR '':''"
  by (rule lower_fixed) simp

lemma lower_lbrace: "lower x = lower CHR ''{'' \<longleftrightarrow> x = CHR ''{''"
  by (rule lower_fixed) simp

lemma lower_rbrace: "lower x = lower CHR ''}'' \<longleftrightarrow> x = CHR ''}''"
  by (rule lower_fixed) simp

lemma lower_c: "lower x = lower CHR ''c'' \<longleftrightarrow> x = CHR ''c'' \<or> x = CHR ''C''"
proof
  assume e: "lower x = lower CHR ''c''"
  have c: "lower CHR ''c'' = CHR ''c''"
    by (simp add: lower_def)
  from e c have n: "(of_char (lower x) :: nat) = 99"
    by simp
  show "x = CHR ''c'' \<or> x = CHR ''C''"
  proof (cases "65 \<le> (of_char x :: nat) \<and> (of_char x :: nat) \<le> 90")
    case True
    with n have "(of_char x :: nat) = of_char CHR ''C''"
      unfolding of_char_lower by simp
    then have "x = CHR ''C''"
      by (simp only: of_char_eq_iff)
    then show ?thesis
      by blast
  next
    case False
    then have "lower x = x"
      by (auto simp: lower_def)
    with e c show ?thesis by simp
  qed
next
  assume x: "x = CHR ''c'' \<or> x = CHR ''C''"
  have "lower CHR ''C'' = CHR ''c''"
    by code_simp
  moreover have "lower CHR ''c'' = CHR ''c''"
    by (simp add: lower_def)
  ultimately show "lower x = lower CHR ''c''"
    using x by auto
qed

section \<open>Matching the cloze pattern\<close>

lemma lits_simps: "lits [] = []" "lits (c # cs) = Atom (Lit c) # lits cs"
  by (simp_all add: lits_def)

lemma m_lit:
  "m cloze_flags (Atom (Lit c) # k) s gs = Some r \<longleftrightarrow>
     (\<exists>x xs. s = x # xs \<and> lower x = lower c \<and> m cloze_flags k xs gs = Some r)"
  by (cases s) (auto simp: cloze_flags_def)

lemma m_lits_digits:
  "digits k \<Longrightarrow> m cloze_flags (lits k @ K) s gs = Some r \<Longrightarrow>
     \<exists>s'. s = k @ s' \<and> m cloze_flags K s' gs = Some r"
proof (induction k arbitrary: s)
  case Nil
  then show ?case by (simp add: lits_simps)
next
  case (Cons d k)
  from Cons.prems(1) have d: "digit d" "digits k"
    by (simp_all add: digits_def)
  from Cons.prems(2) have "m cloze_flags (Atom (Lit d) # lits k @ K) s gs = Some r"
    by (simp add: lits_simps del: m.simps)
  then obtain xs where
    s: "s = d # xs" and mm: "m cloze_flags (lits k @ K) xs gs = Some r"
    unfolding m_lit lower_digit [OF d(1)] by blast
  from Cons.IH [OF d(2) mm] s show ?case by auto
qed

lemma m_lazy_dot:
  "m cloze_flags (Star True Dot # K) s gs = Some r \<Longrightarrow>
     \<exists>u s'. s = u @ s' \<and> m cloze_flags K s' gs = Some r"
proof (induction s)
  case Nil
  then show ?case
    by (auto split: option.splits)
next
  case (Cons x xs)
  show ?case
  proof (cases "m cloze_flags K (x # xs) gs")
    case (Some a)
    with Cons.prems have "a = r" by simp
    with Some show ?thesis by (metis append_Nil)
  next
    case None
    with Cons.prems have "m cloze_flags (Star True Dot # K) xs gs = Some r"
      by (simp split: if_splits)
    from Cons.IH [OF this] show ?thesis
      by (metis append_Cons)
  qed
qed

lemma m_nil: "m fl [] s gs = Some r \<longleftrightarrow> r = (s, gs)"
  by auto

lemma m_lits_end:
  "m cloze_flags (lits ''}}'') s gs = Some r \<longleftrightarrow> (\<exists>rest. s = ''}}'' @ rest \<and> r = (rest, gs))"
  unfolding lits_simps m_lit lower_rbrace m_nil by auto

lemma m_lits_colons:
  "m cloze_flags (lits ''::'' @ K) s gs = Some r \<longleftrightarrow>
     (\<exists>s'. s = ''::'' @ s' \<and> m cloze_flags K s' gs = Some r)"
  unfolding lits_simps append.simps m_lit lower_colon by auto

lemma cloze_tail:
  assumes "m cloze_flags
             ([Group CLOZE_REGEX_MATCH_GROUP_CONTENT [Star True Dot],
               Opt [Group ''3'' (lits ''::'' @ [Group CLOZE_REGEX_MATCH_GROUP_HINT [Star True Dot]])]]
              @ lits ''}}'') s gs0 = Some (rest, gs)"
    and "group gs0 CLOZE_REGEX_MATCH_GROUP_HINT = None"
  shows "\<exists>content.
           group gs CLOZE_REGEX_MATCH_GROUP_CONTENT = Some content \<and>
           ((group gs CLOZE_REGEX_MATCH_GROUP_HINT = None \<and> s = content @ ''}}'' @ rest) \<or>
            (\<exists>h. group gs CLOZE_REGEX_MATCH_GROUP_HINT = Some h \<and>
                 s = content @ ''::'' @ h @ ''}}'' @ rest))"
proof -
  let ?hint = "Group CLOZE_REGEX_MATCH_GROUP_HINT [Star True Dot]"
  let ?opt = "Opt [Group ''3'' (lits ''::'' @ [?hint])]"
  let ?K = "?opt # lits ''}}''"
  from assms(1) have "m cloze_flags (Star True Dot # Close CLOZE_REGEX_MATCH_GROUP_CONTENT s # ?K) s gs0
      = Some (rest, gs)"
    by (simp del: m.simps add: m.simps(5))
  then obtain content s1 where s: "s = content @ s1"
    and m1: "m cloze_flags (Close CLOZE_REGEX_MATCH_GROUP_CONTENT s # ?K) s1 gs0 = Some (rest, gs)"
    using m_lazy_dot by blast
  define gs1 where "gs1 = (CLOZE_REGEX_MATCH_GROUP_CONTENT, content) # gs0"
  from m1 s have m2: "m cloze_flags ?K s1 gs1 = Some (rest, gs)"
    by (simp del: m.simps add: m.simps(6) gs1_def)
  have g1: "group gs1 CLOZE_REGEX_MATCH_GROUP_CONTENT = Some content"
    "group gs1 CLOZE_REGEX_MATCH_GROUP_HINT = None"
    using assms(2)
    by (simp_all add: gs1_def group_def CLOZE_REGEX_MATCH_GROUP_CONTENT_def CLOZE_REGEX_MATCH_GROUP_HINT_def)
  show ?thesis
  proof (cases "m cloze_flags ([Group ''3'' (lits ''::'' @ [?hint])] @ lits ''}}'') s1 gs1")
    case None
    with m2 have "m cloze_flags (lits ''}}'') s1 gs1 = Some (rest, gs)"
      by (simp del: m.simps add: m.simps(7))
    then have "s1 = ''}}'' @ rest" "gs = gs1"
      unfolding m_lits_end by auto
    with s g1 show ?thesis by auto
  next
    case (Some a)
    with m2 have a: "a = (rest, gs)"
      by (simp del: m.simps add: m.simps(7))
    from Some a have "m cloze_flags
        (lits ''::'' @ ?hint # Close ''3'' s1 # lits ''}}'')
        s1 gs1 = Some (rest, gs)"
      by (simp del: m.simps add: m.simps(5))
    then obtain s2 where s2: "s1 = ''::'' @ s2"
      and m3: "m cloze_flags (?hint # Close ''3'' s1 # lits ''}}'') s2 gs1 = Some (rest, gs)"
      unfolding m_lits_colons by blast
    from m3 have "m cloze_flags (Star True Dot # Close CLOZE_REGEX_MATCH_GROUP_HINT s2 # Close ''3'' s1 # lits ''}}'')
                 s2 gs1 = Some (rest, gs)"
      by (simp del: m.simps add: m.simps(5))
    then obtain h s3 where s3: "s2 = h @ s3"
      and m4: "m cloze_flags (Close CLOZE_REGEX_MATCH_GROUP_HINT s2 # Close ''3'' s1 # lits ''}}'') s3 gs1
                 = Some (rest, gs)"
      using m_lazy_dot by blast
    define gs2 where "gs2 = (''3'', take (length s1 - length s3) s1) # (CLOZE_REGEX_MATCH_GROUP_HINT, h) # gs1"
    from m4 s3 have "m cloze_flags (lits ''}}'') s3 gs2 = Some (rest, gs)"
      by (simp del: m.simps add: m.simps(6) gs2_def)
    then have e: "s3 = ''}}'' @ rest" "gs = gs2"
      unfolding m_lits_end by auto
    have "group gs2 CLOZE_REGEX_MATCH_GROUP_CONTENT = Some content"
      "group gs2 CLOZE_REGEX_MATCH_GROUP_HINT = Some h"
      using g1
      by (simp_all add: gs2_def group_def CLOZE_REGEX_MATCH_GROUP_CONTENT_def CLOZE_REGEX_MATCH_GROUP_HINT_def)
    with s s2 s3 e show ?thesis by auto
  qed
qed

lemma m_lits_open:
  "m cloze_flags (lits ''{{'' @ K) s gs = Some r \<longleftrightarrow>
     (\<exists>s'. s = ''{{'' @ s' \<and> m cloze_flags K s' gs = Some r)"
  unfolding lits_simps append.simps m_lit lower_lbrace by auto

lemma cloze_ord_match:
  assumes "m cloze_flags (clozeReg_ord k) s [] = Some (rest, gs)" and "digits k"
  shows "\<exists>c content.
           (c = CHR ''c'' \<or> c = CHR ''C'') \<and>
           group gs CLOZE_REGEX_MATCH_GROUP_CONTENT = Some content \<and>
           ((group gs CLOZE_REGEX_MATCH_GROUP_HINT = None \<and>
             s = ''{{'' @ [c] @ k @ ''::'' @ content @ ''}}'' @ rest) \<or>
            (\<exists>h. group gs CLOZE_REGEX_MATCH_GROUP_HINT = Some h \<and>
                 s = ''{{'' @ [c] @ k @ ''::'' @ content @ ''::'' @ h @ ''}}'' @ rest))"
proof -
  let ?tail = "[Group CLOZE_REGEX_MATCH_GROUP_CONTENT [Star True Dot],
               Opt [Group ''3'' (lits ''::'' @ [Group CLOZE_REGEX_MATCH_GROUP_HINT [Star True Dot]])]]
              @ lits ''}}''"
  let ?body = "lits k @ lits ''::'' @ ?tail"
  from assms(1) have "m cloze_flags (lits ''{{'' @ Group CLOZE_REGEX_MATCH_GROUP_TAG (lits ''c'') # ?body) s []
      = Some (rest, gs)"
    by (simp del: m.simps add: clozeReg_ord_def clozeReg_def)
  then obtain s0 where s0: "s = ''{{'' @ s0"
    and m0: "m cloze_flags (Group CLOZE_REGEX_MATCH_GROUP_TAG (lits ''c'') # ?body) s0 [] = Some (rest, gs)"
    unfolding m_lits_open by blast
  from m0 have "m cloze_flags (Atom (Lit CHR ''c'') # Close CLOZE_REGEX_MATCH_GROUP_TAG s0 # ?body) s0 []
      = Some (rest, gs)"
    by (simp del: m.simps add: m.simps(5) lits_simps)
  then obtain c s1 where s1: "s0 = c # s1" and c: "c = CHR ''c'' \<or> c = CHR ''C''"
    and m1: "m cloze_flags (Close CLOZE_REGEX_MATCH_GROUP_TAG s0 # ?body) s1 [] = Some (rest, gs)"
    unfolding m_lit lower_c by blast
  from m1 s1 have m1': "m cloze_flags ?body s1 [(CLOZE_REGEX_MATCH_GROUP_TAG, [c])] = Some (rest, gs)"
    by (simp del: m.simps add: m.simps(6))
  from m_lits_digits [OF assms(2) m1'] obtain s2 where s2: "s1 = k @ s2"
    and m2: "m cloze_flags (lits ''::'' @ ?tail) s2 [(CLOZE_REGEX_MATCH_GROUP_TAG, [c])] = Some (rest, gs)"
    by blast
  from m2 obtain s3 where s3: "s2 = ''::'' @ s3"
    and m3: "m cloze_flags ?tail s3 [(CLOZE_REGEX_MATCH_GROUP_TAG, [c])] = Some (rest, gs)"
    unfolding m_lits_colons by blast
  have "group [(CLOZE_REGEX_MATCH_GROUP_TAG, [c])] CLOZE_REGEX_MATCH_GROUP_HINT = None"
    by (simp add: group_def CLOZE_REGEX_MATCH_GROUP_TAG_def CLOZE_REGEX_MATCH_GROUP_HINT_def)
  from cloze_tail [OF m3 this] obtain content where
    ct: "group gs CLOZE_REGEX_MATCH_GROUP_CONTENT = Some content"
    and alt: "(group gs CLOZE_REGEX_MATCH_GROUP_HINT = None \<and> s3 = content @ ''}}'' @ rest) \<or>
            (\<exists>h. group gs CLOZE_REGEX_MATCH_GROUP_HINT = Some h \<and>
                 s3 = content @ ''::'' @ h @ ''}}'' @ rest)"
    by blast
  have s: "s = ''{{'' @ [c] @ k @ ''::'' @ s3"
    using s0 s1 s2 s3 by simp
  show ?thesis
    using c ct alt unfolding s by blast
qed

lemma m_lit_scan:
  "m scan_flags (Atom (Lit c) # k) s gs = Some r \<longleftrightarrow>
     (\<exists>xs. s = c # xs \<and> m scan_flags k xs gs = Some r)"
  by (cases s) (auto simp: scan_flags_def)

lemma m_lazy_star:
  "m fl (Star True c # K) s gs = Some r \<Longrightarrow>
     \<exists>u s'. s = u @ s' \<and> m fl K s' gs = Some r"
proof (induction s)
  case Nil
  then show ?case
    by (auto split: option.splits)
next
  case (Cons x xs)
  show ?case
  proof (cases "m fl K (x # xs) gs")
    case (Some a)
    with Cons.prems have "a = r" by simp
    with Some show ?thesis by (metis append_Nil)
  next
    case None
    with Cons.prems have "m fl (Star True c # K) xs gs = Some r"
      by (simp split: if_splits)
    from Cons.IH [OF this] show ?thesis
      by (metis append_Cons)
  qed
qed

lemma cmatch_digit: "cmatch fl Digit x = digit x"
  by (simp add: digit_def)

lemma m_greedy_digits:
  "m fl (Star False Digit # K) s gs = Some r \<Longrightarrow>
     \<exists>u s'. s = u @ s' \<and> digits u \<and> m fl K s' gs = Some r"
proof (induction s)
  case Nil
  then have "m fl K [] gs = Some r" by simp
  then show ?case
    by (intro exI [of _ "[]"]) (simp add: digits_def)
next
  case (Cons x xs)
  have here: "m fl K (x # xs) gs = Some r \<Longrightarrow> ?case"
    by (intro exI [of _ "[]"] exI [of _ "x # xs"]) (simp add: digits_def)
  show ?case
  proof (cases "digit x")
    case False
    with Cons.prems have "m fl K (x # xs) gs = Some r"
      by (simp add: cmatch_digit del: cmatch.simps)
    then show ?thesis by (rule here)
  next
    case True
    show ?thesis
    proof (cases "m fl (Star False Digit # K) xs gs")
      case None
      with Cons.prems True have "m fl K (x # xs) gs = Some r"
        by (simp add: cmatch_digit del: cmatch.simps)
      then show ?thesis by (rule here)
    next
      case (Some a)
      with Cons.prems True have "a = r"
        by (simp add: cmatch_digit del: cmatch.simps)
      with Some Cons.IH obtain u s' where "xs = u @ s'" "digits u" "m fl K s' gs = Some r"
        by blast
      with True show ?thesis
        by (intro exI [of _ "x # u"] exI [of _ s']) (simp add: digits_def)
    qed
  qed
qed

text \<open>The group that the scan captures is a string of digits, and not empty.\<close>

lemma scan_match:
  assumes "m scan_flags scanReg s [] = Some (rest, gs)"
  shows "\<exists>d. group gs ''1'' = Some d \<and> digits d \<and> d \<noteq> []"
proof -
  let ?K = "lits ''::'' @ [Plus True Dot] @ lits ''}}''"
  from assms have "m scan_flags (lits ''{{c'' @ Group ''1'' [Plus False Digit] # ?K) s [] = Some (rest, gs)"
    by (simp del: m.simps add: scanReg_def)
  then obtain s0 where
    m0: "m scan_flags (Group ''1'' [Plus False Digit] # ?K) s0 [] = Some (rest, gs)"
    unfolding lits_simps append.simps m_lit_scan by blast
  from m0 have "m scan_flags (Atom Digit # Star False Digit # Close ''1'' s0 # ?K) s0 [] = Some (rest, gs)"
    by (simp del: m.simps add: m.simps(4,5))
  then obtain x xs where s0: "s0 = x # xs" and x: "digit x"
    and m1: "m scan_flags (Star False Digit # Close ''1'' s0 # ?K) xs [] = Some (rest, gs)"
    by (cases s0) (auto simp: cmatch_digit simp del: cmatch.simps m.simps(3,4,5,6,7) split: if_splits)
  from m_greedy_digits [OF m1] obtain u s1 where xs: "xs = u @ s1" and u: "digits u"
    and m2: "m scan_flags (Close ''1'' s0 # ?K) s1 [] = Some (rest, gs)"
    by blast
  from m2 s0 xs have "m scan_flags (lits ''::'' @ [Plus True Dot] @ lits ''}}'') s1 [(''1'', x # u)] = Some (rest, gs)"
    by (simp del: m.simps add: m.simps(6))
  then obtain s2 where
    "m scan_flags (Plus True Dot # lits ''}}'') s2 [(''1'', x # u)] = Some (rest, gs)"
    unfolding lits_simps append.simps m_lit_scan by blast
  then have "m scan_flags (Atom Dot # Star True Dot # lits ''}}'') s2 [(''1'', x # u)] = Some (rest, gs)"
    by (simp del: m.simps add: m.simps(4))
  then obtain s3 where
    "m scan_flags (Star True Dot # lits ''}}'') s3 [(''1'', x # u)] = Some (rest, gs)"
    by (cases s2) (auto simp del: m.simps(3,4,5,6,7) split: if_splits)
  from m_lazy_star [OF this] obtain s4 where
    "m scan_flags (lits ''}}'') s4 [(''1'', x # u)] = Some (rest, gs)"
    by blast
  then have "gs = [(''1'', x # u)]"
    unfolding lits_simps m_lit_scan by auto
  with x u show ?thesis
    by (simp add: group_def digits_def)
qed

lemma ordinals_digits:
  assumes "k \<in> set (ordinals string)"
  shows "digits k \<and> k \<noteq> []"
proof -
  from assms obtain seg where seg: "seg \<in> set (segments scan_flags scanReg string)"
    and k: "k \<in> set (found ''1'' seg)"
    by (auto simp: ordinals_def findall_def)
  from k obtain t gs where mt: "seg = Matched t gs"
    and kg: "k = (case group gs ''1'' of None \<Rightarrow> [] | Some x \<Rightarrow> x)"
    by (cases seg) auto
  from matched_is_match seg mt obtain rest where
    "m scan_flags scanReg (t @ rest) [] = Some (rest, gs)"
    by blast
  from scan_match [OF this] kg show ?thesis
    by auto
qed

text \<open>The text of a match of the pattern for the ordinal \<open>k\<close>, and its groups.\<close>

lemma masked_shape:
  assumes "digits k"
    and "Matched t gs \<in> set (segments cloze_flags (clozeReg_ord k) string)"
  shows "\<exists>c content.
           (c = CHR ''c'' \<or> c = CHR ''C'') \<and>
           group gs CLOZE_REGEX_MATCH_GROUP_CONTENT = Some content \<and>
           ((group gs CLOZE_REGEX_MATCH_GROUP_HINT = None \<and>
             t = ''{{'' @ [c] @ k @ ''::'' @ content @ ''}}'') \<or>
            (\<exists>h. group gs CLOZE_REGEX_MATCH_GROUP_HINT = Some h \<and>
                 t = ''{{'' @ [c] @ k @ ''::'' @ content @ ''::'' @ h @ ''}}''))"
proof -
  from matched_is_match [OF assms(2)] obtain rest where
    "m cloze_flags (clozeReg_ord k) (t @ rest) [] = Some (rest, gs)"
    by blast
  from cloze_ord_match [OF this assms(1)] obtain c content where
    c: "c = CHR ''c'' \<or> c = CHR ''C''"
    and ct: "group gs CLOZE_REGEX_MATCH_GROUP_CONTENT = Some content"
    and alt: "(group gs CLOZE_REGEX_MATCH_GROUP_HINT = None \<and>
             t @ rest = ''{{'' @ [c] @ k @ ''::'' @ content @ ''}}'' @ rest) \<or>
            (\<exists>h. group gs CLOZE_REGEX_MATCH_GROUP_HINT = Some h \<and>
                 t @ rest = ''{{'' @ [c] @ k @ ''::'' @ content @ ''::'' @ h @ ''}}'' @ rest)"
    by blast
  have a: "\<And>x. t @ rest = ''{{'' @ [c] @ k @ ''::'' @ x @ ''}}'' @ rest
      \<longleftrightarrow> t = ''{{'' @ [c] @ k @ ''::'' @ x @ ''}}''"
  proof -
    fix x
    have "''{{'' @ [c] @ k @ ''::'' @ x @ ''}}'' @ rest = (''{{'' @ [c] @ k @ ''::'' @ x @ ''}}'') @ rest"
      by simp
    then show "t @ rest = ''{{'' @ [c] @ k @ ''::'' @ x @ ''}}'' @ rest
      \<longleftrightarrow> t = ''{{'' @ [c] @ k @ ''::'' @ x @ ''}}''"
      by (simp only: append_same_eq)
  qed
  have b: "\<And>x h. t @ rest = ''{{'' @ [c] @ k @ ''::'' @ x @ ''::'' @ h @ ''}}'' @ rest
      \<longleftrightarrow> t = ''{{'' @ [c] @ k @ ''::'' @ x @ ''::'' @ h @ ''}}''"
    using a [of "_ @ ''::'' @ _"] by simp
  from alt have "(group gs CLOZE_REGEX_MATCH_GROUP_HINT = None \<and>
             t = ''{{'' @ [c] @ k @ ''::'' @ content @ ''}}'') \<or>
            (\<exists>h. group gs CLOZE_REGEX_MATCH_GROUP_HINT = Some h \<and>
                 t = ''{{'' @ [c] @ k @ ''::'' @ content @ ''::'' @ h @ ''}}'')"
    unfolding a b .
  with c ct show ?thesis by blast
qed

text \<open>A string of digits ends where the colon stands: two ordinals that both fit are equal.\<close>

lemma digits_then_colon:
  "digits k \<Longrightarrow> digits k' \<Longrightarrow> k @ CHR '':'' # x = k' @ CHR '':'' # y \<Longrightarrow> k = k'"
proof (induction k arbitrary: k')
  case Nil
  have "\<not> digit CHR '':''"
    by (simp add: digit_def)
  with Nil show ?case
    by (cases k') (auto simp: digits_def)
next
  case (Cons d k)
  have nd: "\<not> digit CHR '':''"
    by (simp add: digit_def)
  show ?case
  proof (cases k')
    case Nil
    with Cons.prems nd show ?thesis
      by (auto simp: digits_def)
  next
    case (Cons d' k'')
    with Cons.prems Cons.IH [of k''] show ?thesis
      by (auto simp: digits_def)
  qed
qed

lemma starts_iff: "starts p t \<longleftrightarrow> (\<exists>y. t = p @ y)"
  unfolding starts_def
  by (metis append_eq_conv_conj append_take_drop_id)

section \<open>The variants of \<^verbatim>\<open>expand_clozes\<close>\<close>



text \<open>
  Claim C3. In the variant for the ordinal \<open>k\<close>, the markers that are masked are the
  matches of the pattern for \<open>k\<close>: the variant is the reveal of the text in which these
  matches are replaced by \<^verbatim>\<open>qrepl\<close>. Every such match begins with \<^verbatim>\<open>{{c\<close> (or \<^verbatim>\<open>{{C\<close>),
  the digits of \<open>k\<close> and \<^verbatim>\<open>::\<close>. So it is a marker of the ordinal \<open>k\<close>, and it is not a
  marker of another ordinal \<open>k'\<close>, also when the digits of one are a prefix or a part of
  the digits of the other. Ordinals are strings of digits, as the scan captures them
  (lemma \<open>ordinals_digits\<close>); equal strings are equal numbers.
\<close>

theorem other_ordinal_never_masked:
  assumes "digits k" and "digits k'" and "k' \<noteq> k"
    and "Matched t gs \<in> set (segments cloze_flags (clozeReg_ord k) string)"
  shows "question_variant k string =
           sub cloze_flags clozeReg_any arepl
             (concat (map (render qrepl) (segments cloze_flags (clozeReg_ord k) string)))
       \<and> (starts (''{{c'' @ k @ ''::'') t \<or> starts (''{{C'' @ k @ ''::'') t)
       \<and> \<not> starts (''{{c'' @ k' @ ''::'') t
       \<and> \<not> starts (''{{C'' @ k' @ ''::'') t"
proof -
  from masked_shape [OF assms(1,4)] obtain c y where
    c: "c = CHR ''c'' \<or> c = CHR ''C''" and t: "t = ''{{'' @ [c] @ k @ ''::'' @ y"
    by (metis append.assoc)
  have own: "starts (''{{c'' @ k @ ''::'') t \<or> starts (''{{C'' @ k @ ''::'') t"
    using c unfolding starts_iff t by auto
  have other: "\<not> starts (''{{'' @ [c'] @ k' @ ''::'') t" for c'
  proof
    assume "starts (''{{'' @ [c'] @ k' @ ''::'') t"
    then obtain z where "t = (''{{'' @ [c'] @ k' @ ''::'') @ z"
      unfolding starts_iff by blast
    with t have "k @ CHR '':'' # (CHR '':'' # y) = k' @ CHR '':'' # (CHR '':'' # z)"
      by simp
    from digits_then_colon [OF assms(1,2) this] assms(3) show False
      by simp
  qed
  have q: "question_variant k string =
           sub cloze_flags clozeReg_any arepl
             (concat (map (render qrepl) (segments cloze_flags (clozeReg_ord k) string)))"
    unfolding question_variant_def Let_def sub_def ..
  from other [of "CHR ''c''"] other [of "CHR ''C''"] own q show ?thesis
    by simp
qed

text \<open>
  In \<^verbatim>\<open>{{c1::a}} and {{c10::x}}\<close> the pattern for the ordinal 1 matches the first marker
  only: the variant for 1 shows the content of the marker 10, and the variant for 10
  shows the content of the marker 1.
\<close>

theorem other_ordinal_never_masked_witness:
  "digits ''1'' \<and> digits ''10''
   \<and> segments cloze_flags (clozeReg_ord ''1'') ''{{c1::a}} and {{c10::x}}'' =
       [Unmatched [],
        Matched ''{{c1::a}}'' [(''content'', ''a''), (''tag'', ''c'')],
        Unmatched '' and {{c10::x}}'']
   \<and> starts ''{{c1::'' ''{{c1::a}}''
   \<and> \<not> starts ''{{c10::'' ''{{c1::a}}''
   \<and> question_variant ''1'' ''{{c1::a}} and {{c10::x}}'' = ''[...] and x''
   \<and> question_variant ''10'' ''{{c1::a}} and {{c10::x}}'' = ''a and [...]''"
proof -
  have d: "digits ''1''" "digits ''10''"
    by (simp_all add: digits_def digit_def)
  have s: "segments cloze_flags (clozeReg_ord ''1'') ''{{c1::a}} and {{c10::x}}'' =
       [Unmatched [],
        Matched ''{{c1::a}}'' [(''content'', ''a''), (''tag'', ''c'')],
        Unmatched '' and {{c10::x}}'']"
    by code_simp
  have q1: "question_variant ''1'' ''{{c1::a}} and {{c10::x}}'' = ''[...] and x''"
    by code_simp
  have q10: "question_variant ''10'' ''{{c1::a}} and {{c10::x}}'' = ''a and [...]''"
    by code_simp
  have "Matched ''{{c1::a}}'' [(''content'', ''a''), (''tag'', ''c'')]
      \<in> set (segments cloze_flags (clozeReg_ord ''1'') ''{{c1::a}} and {{c10::x}}'')"
    unfolding s by simp
  from other_ordinal_never_masked [OF d(1) d(2) _ this] have
    "\<not> starts (''{{c'' @ ''10'' @ ''::'') ''{{c1::a}}''"
    by simp
  moreover have "starts ''{{c1::'' ''{{c1::a}}''"
    by (simp add: starts_def)
  ultimately show ?thesis
    using d s q1 q10 by simp
qed

text \<open>
  Claim C6, at the input \<^verbatim>\<open>{{cat::dog}}\<close>. The scan finds no ordinal in it, and it is no
  cloze deletion \<^verbatim>\<open>{{c123::text}}\<close>; yet the last pass, whose pattern has \<^verbatim>\<open>.+?\<close> where
  the number stands, replaces it: the only variant is \<^verbatim>\<open>dog\<close>, not the input.
\<close>

theorem reveal_rewrites_non_cloze:
  "ordinals ''{{cat::dog}}'' = []
   \<and> expand_clozes ''{{cat::dog}}'' = [''dog'']"
proof -
  have o: "ordinals ''{{cat::dog}}'' = []"
    by code_simp
  have r: "revealed ''{{cat::dog}}'' = ''dog''"
    by code_simp
  show ?thesis
    by (simp add: expand_clozes_def expand_clozes_in_def o r)
qed

text \<open>
  Claim C7, at the input \<^verbatim>\<open>{{c1::a\nb}}\<close>, whose content holds a newline. The scan for
  ordinals has no \<^verbatim>\<open>(?s)\<close> flag, so its \<^verbatim>\<open>.+?\<close> stops at the newline and the ordinal 1 is
  not collected: there is no question variant, only the revealed one, which the pattern
  with the flag \<^verbatim>\<open>(?s)\<close> does produce.
\<close>

theorem scan_misses_newline_content:
  "ordinals (''{{c1::a'' @ [newline] @ ''b}}'') = []
   \<and> expand_clozes (''{{c1::a'' @ [newline] @ ''b}}'') = [''a'' @ [newline] @ ''b'']"
proof -
  have o: "ordinals (''{{c1::a'' @ [newline] @ ''b}}'') = []"
    by code_simp
  have r: "revealed (''{{c1::a'' @ [newline] @ ''b}}'') = ''a'' @ [newline] @ ''b''"
    by code_simp
  show ?thesis
    unfolding expand_clozes_def expand_clozes_in_def o r by simp
qed







end
